theory Spec2Isabelle
  imports Main
begin

section \<open>Values of the host language that the dispatcher touches\<close>

text \<open>
  \<^verbatim>\<open>Eventizer.ts\<close> keeps its registrations in a plain object literal,
  \<^verbatim>\<open>private subscribers: { [K in keyof EM]?: Array<(payload: EM[K]) => void> } = {}\<close>.
  An event name is a property key of that object, a listener is a function object and is
  compared by reference (\<^verbatim>\<open>cb !== callback\<close>), so a listener is represented by its
  reference and what it does when called is given separately (see \<open>behaviour\<close> below).
\<close>

type_synonym event = string

type_synonym listener = nat

datatype error = TypeError string | Error string

text \<open>
  What a property read \<^verbatim>\<open>this.subscribers[event]\<close> can evaluate to: \<open>Undefined\<close>, an
  array of listeners stored by \<^verbatim>\<open>on\<close>/\<^verbatim>\<open>off\<close>, or a member inherited from the
  prototype of the object literal: a built-in function (\<open>Function n\<close>, with \<open>n\<close> its
  \<^verbatim>\<open>length\<close> property) or a plain object without a \<^verbatim>\<open>length\<close> (\<open>Object\<close>).
\<close>

datatype jsval = Undefined | Array "listener list" | Function nat | Object

text \<open>
  The members of \<^verbatim>\<open>Object.prototype\<close>, which every object literal \<^verbatim>\<open>{}\<close> inherits
  (ECMAScript, Properties of the Object Prototype Object, and Annex B for the names that
  start with two underscores), each with the \<^verbatim>\<open>length\<close> the standard gives it.
  \<^verbatim>\<open>__proto__\<close> is an accessor that yields \<^verbatim>\<open>Object.prototype\<close> itself.
\<close>

definition Object_prototype :: "(event \<times> jsval) list" where
  "Object_prototype =
     [(''constructor'', Function 1),
      (''hasOwnProperty'', Function 1),
      (''isPrototypeOf'', Function 1),
      (''propertyIsEnumerable'', Function 1),
      (''toLocaleString'', Function 0),
      (''toString'', Function 0),
      (''valueOf'', Function 0),
      (''__defineGetter__'', Function 2),
      (''__defineSetter__'', Function 2),
      (''__lookupGetter__'', Function 1),
      (''__lookupSetter__'', Function 1),
      (''__proto__'', Object)]"

definition inherited :: "event \<Rightarrow> bool" where
  "inherited event = (map_of Object_prototype event \<noteq> None)"

text \<open>\<^verbatim>\<open>!v\<close> is false for every object (arrays and functions included).\<close>

fun truthy :: "jsval \<Rightarrow> bool" where
  "truthy Undefined = False"
| "truthy (Array cbs) = True"
| "truthy (Function n) = True"
| "truthy Object = True"

text \<open>\<^verbatim>\<open>v?.length\<close>: \<open>None\<close> stands for \<^verbatim>\<open>undefined\<close>.\<close>

fun length_of :: "jsval \<Rightarrow> nat option" where
  "length_of Undefined = None"
| "length_of (Array cbs) = Some (length cbs)"
| "length_of (Function n) = Some n"
| "length_of Object = None"

section \<open>The dispatcher: class \<^verbatim>\<open>Eventizer\<close>\<close>

text \<open>The field \<open>subscribers\<close> holds the own properties of the object literal.\<close>

record eventizer =
  subscribers :: "event \<rightharpoonup> listener list"

definition new_Eventizer :: eventizer where
  "new_Eventizer = \<lparr>subscribers = Map.empty\<rparr>"

text \<open>
  \<^verbatim>\<open>this.subscribers[event]\<close>: an own property shadows the prototype, a key that is not
  an own property is looked up in \<^verbatim>\<open>Object.prototype\<close>.
\<close>

definition get :: "eventizer \<Rightarrow> event \<Rightarrow> jsval" where
  "get s event =
     (case subscribers s event of
        Some cbs \<Rightarrow> Array cbs
      | None \<Rightarrow> (case map_of Object_prototype event of Some v \<Rightarrow> v | None \<Rightarrow> Undefined))"

text \<open>The closure \<^verbatim>\<open>() => this.off(event, callback)\<close> returned by \<^verbatim>\<open>on\<close>.\<close>

datatype unsubscribe = Unsubscribe event listener

text \<open>
  \<^verbatim>\<open>
  on(event, callback) {
    if (!this.subscribers[event]) { this.subscribers[event] = []; }
    this.subscribers[event]!.push(callback);
    return () => this.off(event, callback);
  }
  \<close>
  Calling \<^verbatim>\<open>push\<close> on a value that has no such method raises a \<^verbatim>\<open>TypeError\<close>.
  Every method takes the instance and returns its result with the instance afterwards.
\<close>

definition on :: "event \<Rightarrow> listener \<Rightarrow> eventizer \<Rightarrow> (error + unsubscribe) \<times> eventizer" where
  "on event callback s =
     (let s1 = (if \<not> truthy (get s event)
                then s\<lparr>subscribers := (subscribers s)(event \<mapsto> [])\<rparr> else s)
      in case get s1 event of
           Array cbs \<Rightarrow>
             (Inr (Unsubscribe event callback),
              s1\<lparr>subscribers := (subscribers s1)(event \<mapsto> cbs @ [callback])\<rparr>)
         | _ \<Rightarrow> (Inl (TypeError ''this.subscribers[event].push is not a function''), s1))"

text \<open>
  \<^verbatim>\<open>
  off(event, callback) {
    if (!this.subscribers[event]) return;
    this.subscribers[event] = this.subscribers[event]?.filter(cb => cb !== callback);
    if (this.subscribers[event]?.length === 0) { delete this.subscribers[event]; }
  }
  \<close>
\<close>

definition off :: "event \<Rightarrow> listener \<Rightarrow> eventizer \<Rightarrow> (error + unit) \<times> eventizer" where
  "off event callback s =
     (if \<not> truthy (get s event) then (Inr (), s)
      else case get s event of
             Array cbs \<Rightarrow>
               (let s1 = s\<lparr>subscribers :=
                            (subscribers s)(event \<mapsto> filter (\<lambda>cb. cb \<noteq> callback) cbs)\<rparr>
                in if length_of (get s1 event) = Some 0
                   then (Inr (), s1\<lparr>subscribers := (subscribers s1)(event := None)\<rparr>)
                   else (Inr (), s1))
           | _ \<Rightarrow> (Inl (TypeError ''this.subscribers[event]?.filter is not a function''), s))"

fun call_unsubscribe :: "unsubscribe \<Rightarrow> eventizer \<Rightarrow> (error + unit) \<times> eventizer" where
  "call_unsubscribe (Unsubscribe event callback) s = off event callback s"

text \<open>
  What calling a listener does: it returns (\<open>None\<close>) or throws (\<open>Some err\<close>), and it may
  have re-entered the dispatcher, which shows as a changed instance. A listener that
  does not re-enter returns the instance as it got it.
\<close>

type_synonym 'p behaviour = "listener \<Rightarrow> 'p \<Rightarrow> eventizer \<Rightarrow> error option \<times> eventizer"

text \<open>
  What one \<^verbatim>\<open>emit\<close> does besides returning: the listener calls it made, in order, and
  the lines it wrote with \<^verbatim>\<open>console.error\<close> (the message and the error logged with it).
\<close>

record 'p effects =
  invoked :: "(listener \<times> 'p) list"
  console_error :: "(string \<times> error) list"

definition no_effects :: "'p effects" where
  "no_effects = \<lparr>invoked = [], console_error = []\<rparr>"

definition handler_message :: "event \<Rightarrow> string" where
  "handler_message event = ''Error in event handler for '' @ event @ '':''"

text \<open>
  \<^verbatim>\<open>
  forEach(callback => {
    try { callback(payload); }
    catch (error) { console.error(`Error in event handler for ${String(event)}:`, error); }
  })
  \<close>
  \<^verbatim>\<open>Array.prototype.forEach\<close> fixes the number of elements it visits before the first
  call, and the array it walks is never changed in place below that length: \<^verbatim>\<open>on\<close>
  only appends to it, \<^verbatim>\<open>off\<close> stores a new filtered array, \<^verbatim>\<open>clearEvent\<close> and
  \<^verbatim>\<open>clearAll\<close> drop the reference. So the pass visits the elements the array had when
  \<^verbatim>\<open>emit\<close> read it, whatever the listeners do to the instance meanwhile.
\<close>

fun forEach ::
  "'p behaviour \<Rightarrow> event \<Rightarrow> 'p \<Rightarrow> listener list \<Rightarrow> eventizer \<times> 'p effects \<Rightarrow> eventizer \<times> 'p effects"
where
  "forEach run event payload [] (s, fx) = (s, fx)"
| "forEach run event payload (callback # rest) (s, fx) =
     (case run callback payload s of
        (None, s') \<Rightarrow>
          forEach run event payload rest
            (s', fx\<lparr>invoked := invoked fx @ [(callback, payload)]\<rparr>)
      | (Some err, s') \<Rightarrow>
          forEach run event payload rest
            (s', fx\<lparr>invoked := invoked fx @ [(callback, payload)],
                    console_error := console_error fx @ [(handler_message event, err)]\<rparr>))"

text \<open>
  \<^verbatim>\<open>
  emit(event, payload) { this.subscribers[event]?.forEach(callback => { ... }); }
  \<close>
  The optional chaining skips the call only for \<^verbatim>\<open>undefined\<close>.
\<close>

definition emit ::
  "'p behaviour \<Rightarrow> event \<Rightarrow> 'p \<Rightarrow> eventizer \<Rightarrow> (error + unit) \<times> eventizer \<times> 'p effects"
where
  "emit run event payload s =
     (case get s event of
        Undefined \<Rightarrow> (Inr (), s, no_effects)
      | Array cbs \<Rightarrow>
          (case forEach run event payload cbs (s, no_effects) of
             (s', fx) \<Rightarrow> (Inr (), s', fx))
      | _ \<Rightarrow>
          (Inl (TypeError ''this.subscribers[event]?.forEach is not a function''),
           s, no_effects))"

text \<open>
  \<^verbatim>\<open>subscriberCount(event) { return this.subscribers[event]?.length || 0; }\<close>:
  \<^verbatim>\<open>x || 0\<close> is \<open>0\<close> when \<open>x\<close> is \<^verbatim>\<open>undefined\<close> or \<open>0\<close>, and \<open>x\<close> otherwise.
\<close>

definition subscriberCount :: "event \<Rightarrow> eventizer \<Rightarrow> nat \<times> eventizer" where
  "subscriberCount event s =
     ((case length_of (get s event) of
         None \<Rightarrow> 0
       | Some n \<Rightarrow> (if n = 0 then 0 else n)), s)"

text \<open>\<^verbatim>\<open>clearEvent(event) { delete this.subscribers[event]; }\<close> removes an own property.\<close>

definition clearEvent :: "event \<Rightarrow> eventizer \<Rightarrow> unit \<times> eventizer" where
  "clearEvent event s = ((), s\<lparr>subscribers := (subscribers s)(event := None)\<rparr>)"

text \<open>\<^verbatim>\<open>clearAll() { this.subscribers = {}; }\<close>\<close>

definition clearAll :: "eventizer \<Rightarrow> unit \<times> eventizer" where
  "clearAll s = ((), s\<lparr>subscribers := Map.empty\<rparr>)"

section \<open>The context binding: \<^verbatim>\<open>EventizerContext.tsx\<close>\<close>

text \<open>
  \<^verbatim>\<open>const EventizerContext = createContext<EventizerContextValue<any> | null>(null)\<close>.
  The context is not exported, so the only providers are \<^verbatim>\<open>EventizerProvider\<close>
  components, each with the value \<^verbatim>\<open>{ bus }\<close>. A component sees the providers that
  enclose it, innermost first; \<^verbatim>\<open>useContext\<close> yields the value of the innermost one,
  or the default \<^verbatim>\<open>null\<close> (\<open>None\<close>) when there is none. The bus is an
  \<^verbatim>\<open>Eventizer\<close> object, held by reference.
\<close>

type_synonym bus_ref = nat

record EventizerContextValue =
  bus :: bus_ref

definition useContext :: "EventizerContextValue list \<Rightarrow> EventizerContextValue option" where
  "useContext providers = (case providers of [] \<Rightarrow> None | v # outer \<Rightarrow> Some v)"

text \<open>The providers seen by the children of \<^verbatim>\<open><EventizerProvider bus={b}>\<close>.\<close>

definition EventizerProvider :: "bus_ref \<Rightarrow> EventizerContextValue list \<Rightarrow> EventizerContextValue list" where
  "EventizerProvider b providers = \<lparr>bus = b\<rparr> # providers"

text \<open>
  \<^verbatim>\<open>
  const context = useContext(EventizerContext);
  if (!context) { throw new Error('useEventizer must be used within an EventizerProvider'); }
  return context.bus as Eventizer<EM>;
  \<close>
\<close>

definition useEventizer :: "EventizerContextValue list \<Rightarrow> error + bus_ref" where
  "useEventizer providers =
     (case useContext providers of
        None \<Rightarrow> Inl (Error ''useEventizer must be used within an EventizerProvider'')
      | Some context \<Rightarrow> Inr (bus context))"

section \<open>Notions used to state the properties\<close>

text \<open>The listener sequence of an event: empty when the key is not an own property.\<close>

definition registrations :: "eventizer \<Rightarrow> event \<Rightarrow> listener list" where
  "registrations s event = (case subscribers s event of None \<Rightarrow> [] | Some cbs \<Rightarrow> cbs)"

text \<open>The invariant of the data model: a key that is present has a non-empty sequence.\<close>

definition nonempty_lists :: "eventizer \<Rightarrow> bool" where
  "nonempty_lists s = (\<forall>event cbs. subscribers s event = Some cbs \<longrightarrow> cbs \<noteq> [])"

text \<open>No own property has the name of a member of \<^verbatim>\<open>Object.prototype\<close>.\<close>

definition own_keys_plain :: "eventizer \<Rightarrow> bool" where
  "own_keys_plain s = (\<forall>event. inherited event \<longrightarrow> subscribers s event = None)"

text \<open>
  The states an instance can be in: the one the constructor leaves, and what the four
  mutating methods make of a reachable state, whether they return or throw.
\<close>

inductive reachable :: "eventizer \<Rightarrow> bool" where
  reachable_new: "reachable new_Eventizer"
| reachable_on: "reachable s \<Longrightarrow> reachable (snd (on event callback s))"
| reachable_off: "reachable s \<Longrightarrow> reachable (snd (off event callback s))"
| reachable_clearEvent: "reachable s \<Longrightarrow> reachable (snd (clearEvent event s))"
| reachable_clearAll: "reachable s \<Longrightarrow> reachable (snd (clearAll s))"

text \<open>
  Listeners for the examples: \<open>quiet\<close> listeners return and leave the dispatcher alone;
  under \<open>first_throws\<close> the listener with reference 1 throws
  \<^verbatim>\<open>new Error('Test error')\<close>, as \<^verbatim>\<open>errorCallback\<close> of \<^verbatim>\<open>Eventizer.test.ts\<close> does.
\<close>

definition quiet :: "'p behaviour" where
  "quiet callback payload s = (None, s)"

definition first_throws :: "'p behaviour" where
  "first_throws callback payload s =
     (if callback = 1 then Some (Error ''Test error'') else None, s)"

section \<open>Property reads and the three kinds of event name\<close>

lemma inherited_value:
  "map_of Object_prototype event = Some v \<Longrightarrow> (\<exists>n. v = Function n) \<or> v = Object"
  by (auto simp: Object_prototype_def split: if_splits)

lemma get_own: "subscribers s event = Some cbs \<Longrightarrow> get s event = Array cbs"
  by (simp add: get_def)

lemma get_plain: "subscribers s event = None \<Longrightarrow> \<not> inherited event \<Longrightarrow> get s event = Undefined"
  by (simp add: get_def inherited_def)

lemma get_inherited:
  "subscribers s event = None \<Longrightarrow> inherited event \<Longrightarrow>
     (\<exists>n. get s event = Function n) \<or> get s event = Object"
  by (auto simp: get_def inherited_def dest: inherited_value)

lemma on_own:
  "subscribers s event = Some cbs \<Longrightarrow>
     on event callback s =
       (Inr (Unsubscribe event callback), s\<lparr>subscribers := (subscribers s)(event \<mapsto> cbs @ [callback])\<rparr>)"
  by (simp add: on_def get_def)

lemma on_plain:
  "subscribers s event = None \<Longrightarrow> \<not> inherited event \<Longrightarrow>
     on event callback s =
       (Inr (Unsubscribe event callback), s\<lparr>subscribers := (subscribers s)(event \<mapsto> [callback])\<rparr>)"
  by (simp add: on_def get_def inherited_def)

lemma on_inherited:
  "subscribers s event = None \<Longrightarrow> inherited event \<Longrightarrow>
     on event callback s =
       (Inl (TypeError ''this.subscribers[event].push is not a function''), s)"
  using get_inherited [of s event] by (auto simp: on_def)

lemma off_own:
  "subscribers s event = Some cbs \<Longrightarrow>
     off event callback s =
       (Inr (), s\<lparr>subscribers := (subscribers s)
          (event := (if filter (\<lambda>cb. cb \<noteq> callback) cbs = [] then None
                     else Some (filter (\<lambda>cb. cb \<noteq> callback) cbs)))\<rparr>)"
  by (simp add: off_def get_def)

lemma off_plain:
  "subscribers s event = None \<Longrightarrow> \<not> inherited event \<Longrightarrow> off event callback s = (Inr (), s)"
  by (simp add: off_def get_def inherited_def)

lemma off_inherited:
  "subscribers s event = None \<Longrightarrow> inherited event \<Longrightarrow>
     off event callback s =
       (Inl (TypeError ''this.subscribers[event]?.filter is not a function''), s)"
  using get_inherited [of s event] by (auto simp: off_def)

lemma on_cases:
  obtains (own) cbs where "subscribers s event = Some cbs"
  | (plain) "subscribers s event = None" "\<not> inherited event"
  | (inh) "subscribers s event = None" "inherited event"
  by (cases "subscribers s event") auto

lemma nonempty_on: "nonempty_lists s \<Longrightarrow> nonempty_lists (snd (on event callback s))"
  by (rule on_cases [of s event]) (auto simp: on_own on_plain on_inherited nonempty_lists_def)

lemma nonempty_off: "nonempty_lists s \<Longrightarrow> nonempty_lists (snd (off event callback s))"
  by (rule on_cases [of s event]) (auto simp: off_own off_plain off_inherited nonempty_lists_def)

lemma nonempty_clearEvent: "nonempty_lists s \<Longrightarrow> nonempty_lists (snd (clearEvent event s))"
  by (auto simp: clearEvent_def nonempty_lists_def)

lemma nonempty_clearAll: "nonempty_lists (snd (clearAll s))"
  by (auto simp: clearAll_def nonempty_lists_def)

lemma nonempty_new: "nonempty_lists new_Eventizer"
  by (auto simp: new_Eventizer_def nonempty_lists_def)

lemma reachable_nonempty: "reachable s \<Longrightarrow> nonempty_lists s"
  by (induction rule: reachable.induct)
     (simp_all add: nonempty_new nonempty_on nonempty_off nonempty_clearEvent nonempty_clearAll)

lemma plain_on: "own_keys_plain s \<Longrightarrow> own_keys_plain (snd (on event callback s))"
  by (rule on_cases [of s event]) (auto simp: on_own on_plain on_inherited own_keys_plain_def)

lemma plain_off: "own_keys_plain s \<Longrightarrow> own_keys_plain (snd (off event callback s))"
  by (rule on_cases [of s event]) (auto simp: off_own off_plain off_inherited own_keys_plain_def)

lemma reachable_plain: "reachable s \<Longrightarrow> own_keys_plain s"
proof (induction rule: reachable.induct)
  case reachable_new
  show ?case by (simp add: new_Eventizer_def own_keys_plain_def)
next
  case (reachable_on s event callback)
  then show ?case by (simp add: plain_on)
next
  case (reachable_off s event callback)
  then show ?case by (simp add: plain_off)
next
  case (reachable_clearEvent s event)
  then show ?case by (simp add: clearEvent_def own_keys_plain_def)
next
  case (reachable_clearAll s)
  show ?case by (simp add: clearAll_def own_keys_plain_def)
qed

section \<open>The dispatch loop\<close>

lemma forEach_invoked:
  "invoked (snd (forEach run event payload cbs (s, fx))) =
     invoked fx @ map (\<lambda>callback. (callback, payload)) cbs"
  by (induction cbs arbitrary: s fx) (auto split: prod.splits option.splits)

lemma forEach_state:
  "fst (forEach run event payload cbs (s, fx)) =
     foldl (\<lambda>x callback. snd (run callback payload x)) s cbs"
  by (induction cbs arbitrary: s fx) (auto split: prod.splits option.splits)

lemma forEach_console_grows:
  "set (console_error fx) \<subseteq> set (console_error (snd (forEach run event payload cbs (s, fx))))"
proof (induction cbs arbitrary: s fx)
  case Nil
  show ?case by simp
next
  case (Cons callback rest)
  show ?case
  proof (cases "run callback payload s")
    case (Pair out s')
    show ?thesis
    proof (cases out)
      case None
      with Pair Cons [of "fx\<lparr>invoked := invoked fx @ [(callback, payload)]\<rparr>" s']
      show ?thesis by simp
    next
      case (Some err)
      with Pair Cons [of "fx\<lparr>invoked := invoked fx @ [(callback, payload)],
            console_error := console_error fx @ [(handler_message event, err)]\<rparr>" s']
      show ?thesis by auto
    qed
  qed
qed

lemma forEach_console_tagged:
  "line \<in> set (console_error (snd (forEach run event payload cbs (s, fx)))) \<Longrightarrow>
     line \<in> set (console_error fx) \<or> fst line = handler_message event"
proof (induction cbs arbitrary: s fx)
  case Nil
  then show ?case by simp
next
  case (Cons callback rest)
  show ?case
  proof (cases "run callback payload s")
    case (Pair out s')
    show ?thesis
    proof (cases out)
      case None
      with Pair Cons.prems
        Cons.IH [of s' "fx\<lparr>invoked := invoked fx @ [(callback, payload)]\<rparr>"]
      show ?thesis by simp
    next
      case (Some err)
      with Pair Cons.prems
        Cons.IH [of s' "fx\<lparr>invoked := invoked fx @ [(callback, payload)],
            console_error := console_error fx @ [(handler_message event, err)]\<rparr>"]
      show ?thesis by auto
    qed
  qed
qed

lemma forEach_append:
  "forEach run event payload (xs @ ys) sf =
     forEach run event payload ys (forEach run event payload xs sf)"
proof (induction xs arbitrary: sf)
  case Nil
  show ?case by (cases sf) simp
next
  case (Cons x xs)
  show ?case by (cases sf) (simp add: Cons split: prod.splits option.splits)
qed

lemma forEach_reports:
  assumes "fst (run bad payload (foldl (\<lambda>x callback. snd (run callback payload x)) s pre)) = Some err"
  shows "(handler_message event, err) \<in>
           set (console_error (snd (forEach run event payload (pre @ bad # post) (s, fx))))"
proof -
  obtain s1 fx1 where pre: "forEach run event payload pre (s, fx) = (s1, fx1)"
    by (cases "forEach run event payload pre (s, fx)")
  have "fst (forEach run event payload pre (s, fx)) =
          foldl (\<lambda>x callback. snd (run callback payload x)) s pre"
    by (rule forEach_state)
  with pre have s1: "foldl (\<lambda>x callback. snd (run callback payload x)) s pre = s1"
    by simp
  obtain out s2 where bad: "run bad payload s1 = (out, s2)"
    by (cases "run bad payload s1")
  with assms s1 have out: "out = Some err" by simp
  define fx2 where "fx2 = fx1\<lparr>invoked := invoked fx1 @ [(bad, payload)],
                     console_error := console_error fx1 @ [(handler_message event, err)]\<rparr>"
  have step: "forEach run event payload (bad # post) (s1, fx1) =
                forEach run event payload post (s2, fx2)"
    by (simp add: bad out fx2_def)
  have "forEach run event payload (pre @ bad # post) (s, fx) =
          forEach run event payload (bad # post) (forEach run event payload pre (s, fx))"
    by (rule forEach_append)
  with pre step have whole: "forEach run event payload (pre @ bad # post) (s, fx) =
          forEach run event payload post (s2, fx2)"
    by simp
  have "(handler_message event, err) \<in> set (console_error fx2)"
    by (simp add: fx2_def)
  with forEach_console_grows [of fx2 run event payload post s2]
  have "(handler_message event, err) \<in>
          set (console_error (snd (forEach run event payload post (s2, fx2))))"
    by blast
  with whole show ?thesis by simp
qed

lemma foldl_no_reentry:
  "\<forall>callback \<in> set cbs. \<forall>x. snd (run callback payload x) = x \<Longrightarrow>
     foldl (\<lambda>x callback. snd (run callback payload x)) s cbs = s"
  by (induction cbs arbitrary: s) simp_all

lemma emit_own:
  "subscribers s event = Some cbs \<Longrightarrow>
     emit run event payload s =
       (Inr (), fst (forEach run event payload cbs (s, no_effects)),
                snd (forEach run event payload cbs (s, no_effects)))"
  by (simp add: emit_def get_def split: prod.splits)

lemma emit_plain:
  "subscribers s event = None \<Longrightarrow> \<not> inherited event \<Longrightarrow>
     emit run event payload s = (Inr (), s, no_effects)"
  by (simp add: emit_def get_def inherited_def)

lemma emit_inherited:
  "subscribers s event = None \<Longrightarrow> inherited event \<Longrightarrow>
     emit run event payload s =
       (Inl (TypeError ''this.subscribers[event]?.forEach is not a function''), s, no_effects)"
  using get_inherited [of s event] by (auto simp: emit_def)

lemma handler_message_inj: "handler_message a = handler_message b \<Longrightarrow> a = b"
  by (simp add: handler_message_def)

section \<open>Registration, removal and counting\<close>

lemma registrations_own: "subscribers s event = Some cbs \<Longrightarrow> registrations s event = cbs"
  by (simp add: registrations_def)

lemma registrations_none: "subscribers s event = None \<Longrightarrow> registrations s event = []"
  by (simp add: registrations_def)

lemma on_returns:
  assumes "on event callback s = (Inr u, s1)"
  shows "u = Unsubscribe event callback"
    and "subscribers s1 = (subscribers s)(event \<mapsto> registrations s event @ [callback])"
    and "subscribers s event \<noteq> None \<or> \<not> inherited event"
proof -
  show "u = Unsubscribe event callback"
    using assms
    by (rule_tac on_cases [of s event]) (auto simp: on_own on_plain on_inherited)
  show "subscribers s1 = (subscribers s)(event \<mapsto> registrations s event @ [callback])"
    using assms
    by (rule_tac on_cases [of s event])
       (auto simp: on_own on_plain on_inherited registrations_def)
  show "subscribers s event \<noteq> None \<or> \<not> inherited event"
    using assms
    by (rule_tac on_cases [of s event]) (auto simp: on_own on_plain on_inherited)
qed

lemma off_plain_name:
  assumes "\<not> inherited event"
  shows "\<exists>s'. off event callback s = (Inr (), s')
           \<and> registrations s' event = filter (\<lambda>cb. cb \<noteq> callback) (registrations s event)
           \<and> (\<forall>other. other \<noteq> event \<longrightarrow> subscribers s' other = subscribers s other)
           \<and> (filter (\<lambda>cb. cb \<noteq> callback) (registrations s event) = []
                \<longrightarrow> subscribers s' event = None)"
proof (cases "subscribers s event")
  case None
  with assms show ?thesis by (simp add: off_plain registrations_def)
next
  case (Some cbs)
  then show ?thesis by (simp add: off_own registrations_def)
qed

lemma subscriberCount_plain_name:
  "\<not> inherited event \<Longrightarrow> subscriberCount event s = (length (registrations s event), s)"
  by (cases "subscribers s event")
     (simp_all add: subscriberCount_def get_def inherited_def registrations_def)

lemma subscriberCount_own:
  "subscribers s event = Some cbs \<Longrightarrow> subscriberCount event s = (length cbs, s)"
  by (simp add: subscriberCount_def get_def)

lemma emit_invoked:
  "invoked (snd (snd (emit run event payload s))) =
     map (\<lambda>callback. (callback, payload)) (registrations s event)"
proof (rule on_cases [of s event])
  fix cbs assume "subscribers s event = Some cbs"
  then show ?thesis
    by (simp add: emit_own forEach_invoked registrations_def no_effects_def)
next
  assume "subscribers s event = None" "\<not> inherited event"
  then show ?thesis by (simp add: emit_plain registrations_def no_effects_def)
next
  assume "subscribers s event = None" "inherited event"
  then show ?thesis by (simp add: emit_inherited registrations_def no_effects_def)
qed

lemma count_list_map_pair:
  "count_list (map (\<lambda>callback. (callback, payload)) cbs) (l, payload) = count_list cbs l"
  by (induction cbs) simp_all

lemma off_twice_state: "snd (off E L (snd (off E L s))) = snd (off E L s)"
proof (rule on_cases [of s E])
  fix cbs assume own: "subscribers s E = Some cbs"
  let ?s1 = "snd (off E L s)"
  show ?thesis
  proof (cases "filter (\<lambda>cb. cb \<noteq> L) cbs = []")
    case True
    then have gone: "subscribers ?s1 E = None" by (simp add: off_own [OF own])
    show ?thesis
      by (cases "inherited E") (simp_all add: off_plain [OF gone] off_inherited [OF gone])
  next
    case False
    then have kept: "subscribers ?s1 E = Some (filter (\<lambda>cb. cb \<noteq> L) cbs)"
      by (simp add: off_own [OF own])
    show ?thesis
      using False by (simp add: off_own [OF kept]) (simp add: off_own [OF own])
  qed
next
  assume "subscribers s E = None" "\<not> inherited E"
  then show ?thesis by (simp add: off_plain)
next
  assume "subscribers s E = None" "inherited E"
  then show ?thesis by (simp add: off_inherited)
qed

lemma off_absent_listener:
  assumes "subscribers s E = Some cbs" and "L \<notin> set cbs"
  shows "off E L s = (if cbs = [] then (Inr (), s\<lparr>subscribers := (subscribers s)(E := None)\<rparr>)
                       else (Inr (), s))"
proof -
  from assms(2) have "filter (\<lambda>cb. cb \<noteq> L) cbs = cbs" by (auto intro: filter_True)
  with assms(1) show ?thesis by (simp add: off_own [of s E cbs] map_upd_triv)
qed

lemma unsubscribe_later:
  assumes "\<not> inherited E" and "nonempty_lists y" and "L \<notin> set (registrations y E)"
  shows "off E L y = (Inr (), y)"
proof (cases "subscribers y E")
  case None
  then show ?thesis using assms(1) by (simp add: off_plain)
next
  case (Some cbs)
  with assms(2) have "cbs \<noteq> []" by (simp add: nonempty_lists_def)
  moreover from Some assms(3) have "L \<notin> set cbs" by (simp add: registrations_def)
  ultimately show ?thesis using Some by (simp add: off_absent_listener)
qed

lemma length_filter_count:
  "length (filter (\<lambda>cb. cb \<noteq> L) cbs) + count_list cbs L = length cbs"
  by (induction cbs) simp_all

lemma reachable_on_plain:
  assumes "reachable s" and "on E L s = (Inr u, s1)"
  shows "\<not> inherited E"
proof
  assume inh: "inherited E"
  from assms(1) have "own_keys_plain s" by (rule reachable_plain)
  with inh have "subscribers s E = None" by (simp add: own_keys_plain_def)
  with inh assms(2) show False by (simp add: on_inherited)
qed

lemma registrations_on:
  "on E L s = (Inr u, s1) \<Longrightarrow>
     registrations s1 other = (if other = E then registrations s E @ [L] else registrations s other)"
  by (simp add: on_returns(2) registrations_def)

lemma registrations_off:
  assumes "\<not> inherited E"
  shows "registrations (snd (off E L s)) other =
           (if other = E then filter (\<lambda>cb. cb \<noteq> L) (registrations s E)
            else registrations s other)"
proof -
  obtain s' where "off E L s = (Inr (), s')"
    and "registrations s' E = filter (\<lambda>cb. cb \<noteq> L) (registrations s E)"
    and "\<forall>other. other \<noteq> E \<longrightarrow> subscribers s' other = subscribers s other"
    using off_plain_name [OF assms, of L s] by blast
  then show ?thesis by (simp add: registrations_def)
qed

section \<open>Clearing\<close>

lemma clearEvent_plain_name:
  assumes "\<not> inherited E"
  shows "fst (subscriberCount E (snd (clearEvent E s))) = 0"
    and "emit run E P (snd (clearEvent E s)) = (Inr (), snd (clearEvent E s), no_effects)"
proof -
  have gone: "subscribers (snd (clearEvent E s)) E = None" by (simp add: clearEvent_def)
  then have "registrations (snd (clearEvent E s)) E = []" by (rule registrations_none)
  with assms show "fst (subscriberCount E (snd (clearEvent E s))) = 0"
    by (simp add: subscriberCount_plain_name)
  from gone assms
  show "emit run E P (snd (clearEvent E s)) = (Inr (), snd (clearEvent E s), no_effects)"
    by (rule emit_plain)
qed

lemma clearEvent_invokes_nothing:
  "invoked (snd (snd (emit run E P (snd (clearEvent E s))))) = []"
  by (simp add: emit_invoked registrations_def clearEvent_def)

lemma clearEvent_other_events:
  "other \<noteq> E \<Longrightarrow> subscribers (snd (clearEvent E s)) other = subscribers s other"
  by (simp add: clearEvent_def)

lemma clearEvent_absent: "subscribers s E = None \<Longrightarrow> clearEvent E s = ((), s)"
  by (simp add: clearEvent_def fun_upd_idem)

lemma clearAll_plain_name:
  "\<not> inherited E \<Longrightarrow> fst (subscriberCount E (snd (clearAll s))) = 0"
  by (simp add: subscriberCount_plain_name registrations_def clearAll_def)

section \<open>Two small dispatchers used in the examples\<close>

lemma not_inherited_x: "\<not> inherited ''x''"
  by (simp add: inherited_def Object_prototype_def)

lemma on_x_new: "on ''x'' 0 new_Eventizer = (Inr (Unsubscribe ''x'' 0), \<lparr>subscribers = [''x'' \<mapsto> [0]]\<rparr>)"
  by (simp add: on_plain not_inherited_x new_Eventizer_def)

lemma on_x_twice:
  "on ''x'' 0 (snd (on ''x'' 0 new_Eventizer)) =
     (Inr (Unsubscribe ''x'' 0), \<lparr>subscribers = [''x'' \<mapsto> [0, 0]]\<rparr>)"
  by (simp add: on_x_new on_own)

section \<open>Delivery\<close>

text \<open>
  Claim C1, as the code has it. Once \<^verbatim>\<open>on(E, L)\<close> has returned, \<^verbatim>\<open>emit(E, P)\<close> calls
  the listeners of \<open>E\<close> once per registration, in registration order, each with \<open>P\<close>: the
  earlier registrations of \<open>E\<close> followed by \<open>L\<close>. So \<open>L\<close> is called once for each of its
  registrations: exactly once when it was not registered for \<open>E\<close> before, and once more
  than the number of its earlier registrations otherwise. When \<open>E\<close> has no registered
  listener, \<^verbatim>\<open>emit(E, P)\<close> calls nothing.
\<close>

theorem emit_delivers_per_registration:
  "(on E L s = (Inr u, s1) \<longrightarrow>
      (\<exists>s2 fx. emit run E P s1 = (Inr (), s2, fx)
         \<and> registrations s1 E = registrations s E @ [L]
         \<and> invoked fx = map (\<lambda>callback. (callback, P)) (registrations s E @ [L])
         \<and> count_list (invoked fx) (L, P) = Suc (count_list (registrations s E) L)
         \<and> (L \<notin> set (registrations s E) \<longrightarrow> count_list (invoked fx) (L, P) = 1)))
   \<and> (registrations s E = [] \<longrightarrow> invoked (snd (snd (emit run E P s))) = [])"
proof (intro conjI impI)
  assume ok: "on E L s = (Inr u, s1)"
  then have own: "subscribers s1 E = Some (registrations s E @ [L])"
    by (simp add: on_returns(2))
  define s2 where "s2 = fst (forEach run E P (registrations s E @ [L]) (s1, no_effects))"
  define fx where "fx = snd (forEach run E P (registrations s E @ [L]) (s1, no_effects))"
  have e: "emit run E P s1 = (Inr (), s2, fx)"
    by (simp add: emit_own [OF own] s2_def fx_def)
  have r: "registrations s1 E = registrations s E @ [L]"
    using own by (simp add: registrations_def)
  have i: "invoked fx = map (\<lambda>callback. (callback, P)) (registrations s E @ [L])"
    by (simp add: fx_def forEach_invoked no_effects_def)
  have c: "count_list (invoked fx) (L, P) = Suc (count_list (registrations s E) L)"
    unfolding i count_list_map_pair by simp
  have o: "L \<notin> set (registrations s E) \<longrightarrow> count_list (invoked fx) (L, P) = 1"
    using c by (simp add: count_list_0_iff)
  from e r i c o
  show "\<exists>s2 fx. emit run E P s1 = (Inr (), s2, fx)
         \<and> registrations s1 E = registrations s E @ [L]
         \<and> invoked fx = map (\<lambda>callback. (callback, P)) (registrations s E @ [L])
         \<and> count_list (invoked fx) (L, P) = Suc (count_list (registrations s E) L)
         \<and> (L \<notin> set (registrations s E) \<longrightarrow> count_list (invoked fx) (L, P) = 1)"
    by blast
next
  assume "registrations s E = []"
  then show "invoked (snd (snd (emit run E P s))) = []"
    by (simp add: emit_invoked)
qed

text \<open>On a new dispatcher: \<^verbatim>\<open>on('x', f)\<close>, then \<^verbatim>\<open>emit('x', 5)\<close> calls \<open>f(5)\<close> once.\<close>

theorem emit_delivers_per_registration_witness:
  "on ''x'' 0 new_Eventizer = (Inr (Unsubscribe ''x'' 0), \<lparr>subscribers = [''x'' \<mapsto> [0]]\<rparr>)
   \<and> registrations new_Eventizer ''x'' = []
   \<and> (\<exists>s2 fx. emit quiet ''x'' (5::int) \<lparr>subscribers = [''x'' \<mapsto> [0]]\<rparr> = (Inr (), s2, fx)
         \<and> invoked fx = [(0, 5)]
         \<and> count_list (invoked fx) (0, 5) = 1)
   \<and> invoked (snd (snd (emit quiet ''x'' (5::int) new_Eventizer))) = []"
proof -
  have r: "registrations new_Eventizer ''x'' = []"
    by (simp add: registrations_def new_Eventizer_def)
  from on_x_new r
    emit_delivers_per_registration [where E = "''x''" and L = 0 and s = new_Eventizer
      and u = "Unsubscribe ''x'' 0" and ?s1.0 = "\<lparr>subscribers = [''x'' \<mapsto> [0]]\<rparr>"
      and run = quiet and P = "5::int"]
  show ?thesis by auto
qed

text \<open>
  The claim as stated says that \<open>L\<close> is called exactly once. After
  \<^verbatim>\<open>on('x', f); on('x', f)\<close> the second \<^verbatim>\<open>on\<close> has returned and \<^verbatim>\<open>emit('x', 5)\<close>
  calls \<open>f(5)\<close> twice: \<^verbatim>\<open>on\<close> pushes without looking for duplicates.
\<close>

theorem listener_registered_twice_invoked_twice:
  "fst (on ''x'' 0 (snd (on ''x'' 0 new_Eventizer))) = Inr (Unsubscribe ''x'' 0)
   \<and> invoked (snd (snd (emit quiet ''x'' (5::int) (snd (on ''x'' 0 (snd (on ''x'' 0 new_Eventizer)))))))
       = [(0, 5), (0, 5)]
   \<and> count_list
        (invoked (snd (snd (emit quiet ''x'' (5::int) (snd (on ''x'' 0 (snd (on ''x'' 0 new_Eventizer))))))))
        (0, 5) = 2"
  by (simp add: on_x_twice emit_invoked registrations_def)

section \<open>A listener that throws\<close>

text \<open>
  Claim C2. Let \<open>E\<close> have the listener sequence \<open>pre @ bad # post\<close> and let \<open>bad\<close> throw
  \<open>err\<close> when \<^verbatim>\<open>emit(E, P)\<close> calls it. Then \<^verbatim>\<open>emit\<close> returns normally; it has called
  every listener of the sequence in order with \<open>P\<close>, those after \<open>bad\<close> included; it has
  written the line \<^verbatim>\<open>Error in event handler for E:\<close> (with the name of \<open>E\<close> in it)
  and \<open>err\<close> to \<^verbatim>\<open>console.error\<close>, and every line it wrote has that message, so each
  names \<open>E\<close>; and the dispatcher afterwards is what the listeners
  themselves made of it, so when no listener re-enters the dispatcher it is unchanged
  and no registration is lost.
\<close>

theorem emit_isolates_failing_listener:
  assumes own: "subscribers s E = Some (pre @ bad # post)"
      and raises: "fst (run bad P (foldl (\<lambda>x callback. snd (run callback P x)) s pre)) = Some err"
  shows "\<exists>s' fx. emit run E P s = (Inr (), s', fx)
           \<and> invoked fx = map (\<lambda>callback. (callback, P)) (pre @ bad # post)
           \<and> (''Error in event handler for '' @ E @ '':'', err) \<in> set (console_error fx)
           \<and> (\<forall>line \<in> set (console_error fx).
                 fst line = ''Error in event handler for '' @ E @ '':'')
           \<and> s' = foldl (\<lambda>x callback. snd (run callback P x)) s (pre @ bad # post)
           \<and> ((\<forall>callback \<in> set (pre @ bad # post). \<forall>x. snd (run callback P x) = x)
                \<longrightarrow> s' = s)"
proof -
  let ?cbs = "pre @ bad # post"
  define s' where "s' = fst (forEach run E P ?cbs (s, no_effects))"
  define fx where "fx = snd (forEach run E P ?cbs (s, no_effects))"
  have e: "emit run E P s = (Inr (), s', fx)"
    by (simp add: emit_own [OF own] s'_def fx_def)
  have i: "invoked fx = map (\<lambda>callback. (callback, P)) ?cbs"
    unfolding fx_def forEach_invoked by (simp add: no_effects_def)
  have r: "(handler_message E, err) \<in> set (console_error fx)"
    unfolding fx_def
    using raises
    by (rule forEach_reports [where run = run and bad = bad and payload = P and s = s
          and pre = pre and err = err])
  have t: "\<forall>line \<in> set (console_error fx). fst line = handler_message E"
  proof
    fix line assume "line \<in> set (console_error fx)"
    then have "line \<in> set (console_error (no_effects :: 'a effects)) \<or> fst line = handler_message E"
      unfolding fx_def by (rule forEach_console_tagged)
    then show "fst line = handler_message E" by (simp add: no_effects_def)
  qed
  have f: "s' = foldl (\<lambda>x callback. snd (run callback P x)) s ?cbs"
    unfolding s'_def by (rule forEach_state)
  have n: "(\<forall>callback \<in> set ?cbs. \<forall>x. snd (run callback P x) = x) \<longrightarrow> s' = s"
    unfolding f by (rule impI) (rule foldl_no_reentry)
  have r': "(''Error in event handler for '' @ E @ '':'', err) \<in> set (console_error fx)"
    using r by (simp add: handler_message_def)
  have t': "\<forall>line \<in> set (console_error fx).
              fst line = ''Error in event handler for '' @ E @ '':''"
    using t by (simp add: handler_message_def)
  from e i r' t' f n show ?thesis by blast
qed

text \<open>
  The test of \<^verbatim>\<open>Eventizer.test.ts\<close>: \<^verbatim>\<open>errorCallback\<close> (reference 1) throws,
  \<^verbatim>\<open>normalCallback\<close> (reference 2) is still called, one line is logged.
\<close>

theorem emit_isolates_failing_listener_witness:
  "subscribers \<lparr>subscribers = [''test:event'' \<mapsto> [1, 2]]\<rparr> ''test:event'' = Some ([] @ 1 # [2])
   \<and> fst (first_throws 1 ''hello'' \<lparr>subscribers = [''test:event'' \<mapsto> [1, 2]]\<rparr>)
        = Some (Error ''Test error'')
   \<and> emit first_throws ''test:event'' ''hello'' \<lparr>subscribers = [''test:event'' \<mapsto> [1, 2]]\<rparr> =
       (Inr (), \<lparr>subscribers = [''test:event'' \<mapsto> [1, 2]]\<rparr>,
        \<lparr>invoked = [(1, ''hello''), (2, ''hello'')],
         console_error = [(''Error in event handler for test:event:'', Error ''Test error'')]\<rparr>)"
proof -
  let ?s = "\<lparr>subscribers = [''test:event'' \<mapsto> [1, 2]]\<rparr>"
  have own: "subscribers ?s ''test:event'' = Some ([] @ 1 # [2])" by simp
  have raises: "fst (first_throws 1 ''hello''
      (foldl (\<lambda>x callback. snd (first_throws callback ''hello'' x)) ?s [])) = Some (Error ''Test error'')"
    by (simp add: first_throws_def)
  have quiet: "\<forall>callback \<in> set ([] @ 1 # [2]). \<forall>x. snd (first_throws callback ''hello'' x) = x"
    by (simp add: first_throws_def)
  from own raises
    emit_isolates_failing_listener [where s = ?s and E = "''test:event''" and pre = "[]"
      and bad = 1 and post = "[2]" and run = first_throws and P = "''hello''"
      and err = "Error ''Test error''"]
  obtain s' fx where e: "emit first_throws ''test:event'' ''hello'' ?s = (Inr (), s', fx)"
    and i: "invoked fx = map (\<lambda>callback. (callback, ''hello'')) ([] @ 1 # [2])"
    and s': "(\<forall>callback \<in> set ([] @ 1 # [2]). \<forall>x. snd (first_throws callback ''hello'' x) = x)
                \<longrightarrow> s' = ?s"
    by blast
  from s' quiet have st: "s' = ?s" by blast
  have c: "console_error fx = [(''Error in event handler for test:event:'', Error ''Test error'')]"
    using e by (auto simp: emit_def get_def first_throws_def no_effects_def handler_message_def)
  have "fx = \<lparr>invoked = [(1, ''hello''), (2, ''hello'')],
         console_error = [(''Error in event handler for test:event:'', Error ''Test error'')]\<rparr>"
    using i c by simp
  with e st own raises show ?thesis by (simp add: first_throws_def)
qed

section \<open>The function returned by \<^verbatim>\<open>on\<close>\<close>

text \<open>
  Claim C3, as the code has it. The function returned by \<^verbatim>\<open>on(E, L)\<close> is
  \<^verbatim>\<open>() => this.off(E, L)\<close>: called in any state \<open>x\<close> of the dispatcher it raises no
  error and removes every registration of \<open>L\<close> for \<open>E\<close> (as many as \<open>L\<close> occurs in the
  sequence of \<open>E\<close>, so exactly one when \<open>L\<close> is registered once), keeping the other
  listeners of \<open>E\<close> in order and the other events as they were. Calling it again right
  after, or at any later time when \<open>L\<close> is not registered for \<open>E\<close>, changes nothing and
  raises no error.
\<close>

theorem unsubscribe_removes_listener:
  assumes "reachable s" and "on E L s = (Inr u, s1)"
  shows "(\<exists>x'. call_unsubscribe u x = (Inr (), x')
           \<and> registrations x' E = filter (\<lambda>cb. cb \<noteq> L) (registrations x E)
           \<and> length (registrations x' E) + count_list (registrations x E) L
               = length (registrations x E)
           \<and> (\<forall>other. other \<noteq> E \<longrightarrow> subscribers x' other = subscribers x other)
           \<and> call_unsubscribe u x' = (Inr (), x'))
         \<and> (reachable y \<and> L \<notin> set (registrations y E) \<longrightarrow> call_unsubscribe u y = (Inr (), y))"
proof
  have plain: "\<not> inherited E" using assms by (rule reachable_on_plain)
  have u: "u = Unsubscribe E L" using assms(2) by (rule on_returns(1))
  obtain x' where first: "off E L x = (Inr (), x')"
    and regs: "registrations x' E = filter (\<lambda>cb. cb \<noteq> L) (registrations x E)"
    and frame: "\<forall>other. other \<noteq> E \<longrightarrow> subscribers x' other = subscribers x other"
    using off_plain_name [OF plain, of L x] by blast
  have len: "length (registrations x' E) + count_list (registrations x E) L
               = length (registrations x E)"
    unfolding regs by (rule length_filter_count)
  have "snd (off E L (snd (off E L x))) = snd (off E L x)"
    by (rule off_twice_state)
  with first have "snd (off E L x') = x'" by simp
  moreover obtain z where "off E L x' = (Inr (), z)"
    using off_plain_name [OF plain, of L x'] by blast
  ultimately have again: "off E L x' = (Inr (), x')" by simp
  from first regs len frame again
  show "\<exists>x'. call_unsubscribe u x = (Inr (), x')
           \<and> registrations x' E = filter (\<lambda>cb. cb \<noteq> L) (registrations x E)
           \<and> length (registrations x' E) + count_list (registrations x E) L
               = length (registrations x E)
           \<and> (\<forall>other. other \<noteq> E \<longrightarrow> subscribers x' other = subscribers x other)
           \<and> call_unsubscribe u x' = (Inr (), x')"
    unfolding u by simp
  show "reachable y \<and> L \<notin> set (registrations y E) \<longrightarrow> call_unsubscribe u y = (Inr (), y)"
    unfolding u using plain by (auto intro: unsubscribe_later reachable_nonempty)
qed

text \<open>On a new dispatcher: \<^verbatim>\<open>const u = on('x', f); u(); u()\<close>.\<close>

theorem unsubscribe_removes_listener_witness:
  "reachable new_Eventizer
   \<and> on ''x'' 0 new_Eventizer = (Inr (Unsubscribe ''x'' 0), \<lparr>subscribers = [''x'' \<mapsto> [0]]\<rparr>)
   \<and> call_unsubscribe (Unsubscribe ''x'' 0) \<lparr>subscribers = [''x'' \<mapsto> [0]]\<rparr>
        = (Inr (), new_Eventizer)
   \<and> call_unsubscribe (Unsubscribe ''x'' 0) new_Eventizer = (Inr (), new_Eventizer)
   \<and> 0 \<notin> set (registrations new_Eventizer ''x'')"
proof -
  let ?s1 = "\<lparr>subscribers = [''x'' \<mapsto> [0]]\<rparr>"
  have r: "0 \<notin> set (registrations new_Eventizer ''x'')"
    by (simp add: registrations_def new_Eventizer_def)
  note inst = unsubscribe_removes_listener [OF reachable_new on_x_new, of ?s1 new_Eventizer]
  from inst obtain x' where a: "call_unsubscribe (Unsubscribe ''x'' 0) ?s1 = (Inr (), x')"
    by blast
  have x': "x' = new_Eventizer"
    using a by (simp add: off_own new_Eventizer_def)
  from inst reachable_new r
  have b: "call_unsubscribe (Unsubscribe ''x'' 0) new_Eventizer = (Inr (), new_Eventizer)"
    by blast
  from a b x' r reachable_new on_x_new show ?thesis by simp
qed

text \<open>
  The claim as stated says that the function removes exactly one registration, even
  when the same listener is registered more than once. After
  \<^verbatim>\<open>on('x', f); const u = on('x', f)\<close> the event has two registrations, and \<^verbatim>\<open>u()\<close>
  removes both.
\<close>

theorem unsubscribe_removes_both_registrations:
  "fst (on ''x'' 0 (snd (on ''x'' 0 new_Eventizer))) = Inr (Unsubscribe ''x'' 0)
   \<and> registrations (snd (on ''x'' 0 (snd (on ''x'' 0 new_Eventizer)))) ''x'' = [0, 0]
   \<and> registrations
        (snd (call_unsubscribe (Unsubscribe ''x'' 0) (snd (on ''x'' 0 (snd (on ''x'' 0 new_Eventizer))))))
        ''x'' = []"
  by (simp add: on_x_twice off_own registrations_def)

section \<open>The invariant of the subscriber mapping\<close>

text \<open>
  Claim C7. The constructor leaves an empty subscriber mapping. That every key present in
  the mapping has a non-empty listener sequence (\<open>nonempty_lists\<close>) is preserved by
  \<^verbatim>\<open>on\<close>, \<^verbatim>\<open>off\<close>, \<^verbatim>\<open>clearEvent\<close> and \<^verbatim>\<open>clearAll\<close>, whether the method returns
  or throws, and so it holds in every reachable state.
\<close>

theorem invariant_nonempty_lists:
  "subscribers new_Eventizer = Map.empty
   \<and> (nonempty_lists s \<longrightarrow> nonempty_lists (snd (on event callback s)))
   \<and> (nonempty_lists s \<longrightarrow> nonempty_lists (snd (off event callback s)))
   \<and> (nonempty_lists s \<longrightarrow> nonempty_lists (snd (clearEvent event s)))
   \<and> (nonempty_lists s \<longrightarrow> nonempty_lists (snd (clearAll s)))
   \<and> (reachable s \<longrightarrow> nonempty_lists s)"
  by (simp add: new_Eventizer_def nonempty_on nonempty_off nonempty_clearEvent
        nonempty_clearAll reachable_nonempty)

text \<open>
  The invariant at work after \<^verbatim>\<open>on('x', f)\<close> on a new dispatcher: the key \<open>x\<close> holds
  one listener, and \<^verbatim>\<open>off('x', f)\<close> removes the key instead of leaving an empty array.
\<close>

theorem invariant_nonempty_lists_witness:
  "nonempty_lists (snd (on ''x'' 0 new_Eventizer))
   \<and> reachable (snd (on ''x'' 0 new_Eventizer))
   \<and> subscribers (snd (on ''x'' 0 new_Eventizer)) ''x'' = Some [0]
   \<and> nonempty_lists (snd (on ''x'' 0 (snd (on ''x'' 0 new_Eventizer))))
   \<and> nonempty_lists (snd (off ''x'' 0 (snd (on ''x'' 0 new_Eventizer))))
   \<and> subscribers (snd (off ''x'' 0 (snd (on ''x'' 0 new_Eventizer)))) ''x'' = None
   \<and> nonempty_lists (snd (clearEvent ''x'' (snd (on ''x'' 0 new_Eventizer))))
   \<and> nonempty_lists (snd (clearAll (snd (on ''x'' 0 new_Eventizer))))"
proof -
  have r: "reachable (snd (on ''x'' 0 new_Eventizer))"
    by (rule reachable_on) (rule reachable_new)
  have x: "\<not> inherited ''x''"
    by (simp add: inherited_def Object_prototype_def)
  have st: "snd (on ''x'' 0 new_Eventizer) = \<lparr>subscribers = [''x'' \<mapsto> [0]]\<rparr>"
    by (simp add: on_plain x new_Eventizer_def)
  have n: "nonempty_lists (snd (on ''x'' 0 new_Eventizer))"
    by (simp add: st nonempty_lists_def)
  have a: "subscribers (snd (on ''x'' 0 new_Eventizer)) ''x'' = Some [0]"
    by (simp add: st)
  have b: "subscribers (snd (off ''x'' 0 (snd (on ''x'' 0 new_Eventizer)))) ''x'' = None"
    by (simp add: off_own [OF a])
  from r n a b
    invariant_nonempty_lists [where s = "snd (on ''x'' 0 new_Eventizer)"
      and event = "''x''" and callback = 0]
  show ?thesis by simp
qed

section \<open>Isolation across events and reads\<close>

text \<open>
  Claim C8. For event names \<open>E1 \<noteq> E2\<close> and a listener \<open>L\<close> registered for \<open>E2\<close> and not
  for \<open>E1\<close>, \<^verbatim>\<open>emit(E1, P)\<close> never calls \<open>L\<close>; when no listener of \<open>E1\<close> re-enters the
  dispatcher, the dispatcher after \<^verbatim>\<open>emit(E1, P)\<close> is the dispatcher before it; and
  \<^verbatim>\<open>subscriberCount(E1)\<close> leaves the dispatcher as it was.
\<close>

theorem emit_other_event_untouched:
  assumes "E1 \<noteq> E2"
      and "L \<in> set (registrations s E2)"
      and "L \<notin> set (registrations s E1)"
  shows "L \<notin> fst ` set (invoked (snd (snd (emit run E1 P s))))
         \<and> ((\<forall>callback \<in> set (registrations s E1). \<forall>x. snd (run callback P x) = x)
              \<longrightarrow> fst (snd (emit run E1 P s)) = s)
         \<and> snd (subscriberCount E1 s) = s"
proof (intro conjI impI)
  show "L \<notin> fst ` set (invoked (snd (snd (emit run E1 P s))))"
    using assms(3) by (auto simp: emit_invoked)
next
  assume quiet: "\<forall>callback \<in> set (registrations s E1). \<forall>x. snd (run callback P x) = x"
  show "fst (snd (emit run E1 P s)) = s"
  proof (rule on_cases [of s E1])
    fix cbs assume own: "subscribers s E1 = Some cbs"
    then have "registrations s E1 = cbs" by (simp add: registrations_def)
    with quiet have "foldl (\<lambda>x callback. snd (run callback P x)) s cbs = s"
      by (simp add: foldl_no_reentry)
    then show ?thesis by (simp add: emit_own [OF own] forEach_state)
  next
    assume "subscribers s E1 = None" "\<not> inherited E1"
    then show ?thesis by (simp add: emit_plain)
  next
    assume "subscribers s E1 = None" "inherited E1"
    then show ?thesis by (simp add: emit_inherited)
  qed
next
  show "snd (subscriberCount E1 s) = s" by (simp add: subscriberCount_def)
qed

text \<open>A dispatcher with listener 1 on event \<open>a\<close> and listener 2 on event \<open>b\<close>.\<close>

theorem emit_other_event_untouched_witness:
  "''a'' \<noteq> ''b''
   \<and> 2 \<in> set (registrations \<lparr>subscribers = [''a'' \<mapsto> [1], ''b'' \<mapsto> [2]]\<rparr> ''b'')
   \<and> 2 \<notin> set (registrations \<lparr>subscribers = [''a'' \<mapsto> [1], ''b'' \<mapsto> [2]]\<rparr> ''a'')
   \<and> 2 \<notin> fst ` set (invoked (snd (snd
          (emit quiet ''a'' (5::int) \<lparr>subscribers = [''a'' \<mapsto> [1], ''b'' \<mapsto> [2]]\<rparr>))))
   \<and> invoked (snd (snd
          (emit quiet ''a'' (5::int) \<lparr>subscribers = [''a'' \<mapsto> [1], ''b'' \<mapsto> [2]]\<rparr>))) = [(1, 5)]
   \<and> fst (snd (emit quiet ''a'' (5::int) \<lparr>subscribers = [''a'' \<mapsto> [1], ''b'' \<mapsto> [2]]\<rparr>))
        = \<lparr>subscribers = [''a'' \<mapsto> [1], ''b'' \<mapsto> [2]]\<rparr>
   \<and> snd (subscriberCount ''a'' \<lparr>subscribers = [''a'' \<mapsto> [1], ''b'' \<mapsto> [2]]\<rparr>)
        = \<lparr>subscribers = [''a'' \<mapsto> [1], ''b'' \<mapsto> [2]]\<rparr>"
proof -
  let ?s = "\<lparr>subscribers = [''a'' \<mapsto> [1], ''b'' \<mapsto> [2]]\<rparr>"
  have h1: "''a'' \<noteq> ''b''" by simp
  have h2: "2 \<in> set (registrations ?s ''b'')" by (simp add: registrations_def)
  have h3: "2 \<notin> set (registrations ?s ''a'')" by (simp add: registrations_def)
  have q: "\<forall>callback \<in> set (registrations ?s ''a''). \<forall>x. snd (quiet callback (5::int) x) = x"
    by (simp add: quiet_def)
  have i: "invoked (snd (snd (emit quiet ''a'' (5::int) ?s))) = [(1, 5)]"
    by (simp add: emit_invoked registrations_def)
  from emit_other_event_untouched [OF h1 h2 h3, of quiet "5::int"] q i h1 h2 h3
  show ?thesis by simp
qed

section \<open>Retrieval through the context\<close>

text \<open>
  Claim C9. \<^verbatim>\<open>useEventizer\<close> called where no \<^verbatim>\<open>EventizerProvider\<close> encloses the caller
  throws an \<^verbatim>\<open>Error\<close> to the caller; inside a provider it returns the bus of that
  provider, and with nested providers the bus of the innermost one.
\<close>

theorem useEventizer_provider:
  "useEventizer [] = Inl (Error ''useEventizer must be used within an EventizerProvider'')
   \<and> useEventizer (EventizerProvider b providers) = Inr b
   \<and> useEventizer (v # providers) = Inr (bus v)"
  by (simp add: useEventizer_def useContext_def EventizerProvider_def)

section \<open>Removing twice\<close>

text \<open>
  Claim C10. In every state, \<^verbatim>\<open>off(E, L)\<close> applied twice in a row leaves the same
  subscriber state as applied once. When \<open>E\<close> has listeners and none of them is \<open>L\<close>,
  \<^verbatim>\<open>off(E, L)\<close> returns normally and the state is the one before the call, so every
  count and every delivery is as before.
\<close>

theorem off_idempotent:
  "snd (off E L (snd (off E L s))) = snd (off E L s)
   \<and> (subscribers s E = Some cbs \<and> cbs \<noteq> [] \<and> L \<notin> set cbs \<longrightarrow> off E L s = (Inr (), s))"
  by (simp add: off_twice_state off_absent_listener)

text \<open>
  With listeners 0 and 1 on event \<open>x\<close>: removing the unregistered listener 2 changes
  nothing, and removing listener 0 twice leaves what removing it once leaves.
\<close>

theorem off_idempotent_witness:
  "subscribers \<lparr>subscribers = [''x'' \<mapsto> [0, 1]]\<rparr> ''x'' = Some [0, 1]
   \<and> [0, 1] \<noteq> ([] :: listener list)
   \<and> 2 \<notin> set [0, 1 :: listener]
   \<and> off ''x'' 2 \<lparr>subscribers = [''x'' \<mapsto> [0, 1]]\<rparr> = (Inr (), \<lparr>subscribers = [''x'' \<mapsto> [0, 1]]\<rparr>)
   \<and> snd (off ''x'' 0 (snd (off ''x'' 0 \<lparr>subscribers = [''x'' \<mapsto> [0, 1]]\<rparr>)))
        = snd (off ''x'' 0 \<lparr>subscribers = [''x'' \<mapsto> [0, 1]]\<rparr>)
   \<and> snd (off ''x'' 0 \<lparr>subscribers = [''x'' \<mapsto> [0, 1]]\<rparr>) = \<lparr>subscribers = [''x'' \<mapsto> [1]]\<rparr>"
proof -
  let ?s = "\<lparr>subscribers = [''x'' \<mapsto> [0, 1]]\<rparr>"
  have once: "snd (off ''x'' 0 ?s) = \<lparr>subscribers = [''x'' \<mapsto> [1]]\<rparr>"
    by (simp add: off_own)
  from off_idempotent [where E = "''x''" and L = 2 and s = ?s and cbs = "[0, 1]"]
  have absent: "off ''x'' 2 ?s = (Inr (), ?s)" by simp
  from off_idempotent [where E = "''x''" and L = 0 and s = ?s and cbs = "[0, 1]"]
  have twice: "snd (off ''x'' 0 (snd (off ''x'' 0 ?s))) = snd (off ''x'' 0 ?s)" by blast
  from once absent twice show ?thesis by simp
qed

section \<open>Event names that are members of \<^verbatim>\<open>Object.prototype\<close>\<close>

text \<open>
  Claim C4 says that \<^verbatim>\<open>off(E, L)\<close> is a silent no-op, raising no error, when \<open>E\<close> has
  no listeners. On a new dispatcher the event name \<open>constructor\<close> has no listeners, and
  \<^verbatim>\<open>off('constructor', L)\<close> throws a \<^verbatim>\<open>TypeError\<close>: the guard
  \<^verbatim>\<open>if (!this.subscribers[event]) return\<close> reads the inherited
  \<^verbatim>\<open>Object.prototype.constructor\<close>, which is truthy and has no \<^verbatim>\<open>filter\<close>.
  For every event name that \<^verbatim>\<open>Object.prototype\<close> does not define, \<open>off_plain_name\<close>
  above gives what the claim says.
\<close>

theorem off_inherited_name_throws:
  "registrations new_Eventizer ''constructor'' = []
   \<and> off ''constructor'' 0 new_Eventizer =
       (Inl (TypeError ''this.subscribers[event]?.filter is not a function''), new_Eventizer)"
  by (simp add: off_def get_def registrations_def new_Eventizer_def Object_prototype_def)

text \<open>
  Claim C5 says that \<^verbatim>\<open>subscriberCount(E)\<close> is the number of active registrations of
  \<open>E\<close>, and 0 when there is none. On a new dispatcher \<^verbatim>\<open>subscriberCount('constructor')\<close>
  is 1, the \<^verbatim>\<open>length\<close> of the inherited function \<^verbatim>\<open>Object\<close>, with no registration
  at all. For every event name that \<^verbatim>\<open>Object.prototype\<close> does not define,
  \<open>subscriberCount_plain_name\<close> above gives the length of the listener sequence.
\<close>

theorem subscriberCount_inherited_name:
  "registrations new_Eventizer ''constructor'' = []
   \<and> fst (subscriberCount ''constructor'' new_Eventizer) = 1"
  by (simp add: subscriberCount_def get_def registrations_def new_Eventizer_def
        Object_prototype_def)

text \<open>
  Claim C6 says that \<^verbatim>\<open>subscriberCount(E)\<close> is 0 after \<^verbatim>\<open>clearEvent(E)\<close>, and 0 for
  every event name after \<^verbatim>\<open>clearAll()\<close>. For the event name \<open>constructor\<close> it is 1
  after either, for the same reason as above. The rest of the claim holds for every
  event name (\<open>clearEvent_invokes_nothing\<close>, \<open>clearEvent_other_events\<close>,
  \<open>clearEvent_absent\<close>).
\<close>

theorem clear_inherited_name:
  "fst (subscriberCount ''constructor'' (snd (clearEvent ''constructor'' new_Eventizer))) = 1
   \<and> fst (subscriberCount ''constructor'' (snd (clearAll new_Eventizer))) = 1"
  by (simp add: subscriberCount_def clearEvent_def clearAll_def get_def new_Eventizer_def
        Object_prototype_def)

end
